theory Spec2Isabelle
  imports Main "HOL-Library.Sublist" "HOL-Library.AList"
begin

section \<open>Python strings\<close>

text \<open>
  A Python \<open>str\<close> is modelled as a \<open>string\<close>: a list of characters, each one a code
  point below 256 (ASCII and Latin-1). On that range \<open>str.isspace\<close>, which is also what
  the regular expression class \<open>\s\<close> tests on a \<open>str\<close> pattern, and \<open>str.lower\<close> are
  the functions below; \<open>str.lower\<close> maps character by character there.
\<close>

definition whitespace_chars :: string where
  "whitespace_chars =
     [CHR 0x09, CHR 0x0A, CHR 0x0B, CHR 0x0C, CHR 0x0D, CHR 0x1C, CHR 0x1D, CHR 0x1E,
      CHR 0x1F, CHR 0x20, CHR 0x85, CHR 0xA0]"

definition isspace :: "char \<Rightarrow> bool" where
  "isspace c = (c \<in> set whitespace_chars)"

definition lower_char :: "char \<Rightarrow> char" where
  "lower_char c =
     (let n = (of_char c :: nat)
      in if (65 \<le> n \<and> n \<le> 90) \<or> (192 \<le> n \<and> n \<le> 222 \<and> n \<noteq> 215)
         then char_of (n + 32) else c)"

definition lower :: "string \<Rightarrow> string" where
  "lower s = map lower_char s"

definition strip :: "string \<Rightarrow> string" where
  "strip s = rev (dropWhile isspace (rev (dropWhile isspace s)))"

text \<open>\<open>s.startswith(p)\<close> is \<open>prefix p s\<close>. \<open>sub in s\<close> on two strings:\<close>

fun str_in :: "string \<Rightarrow> string \<Rightarrow> bool" where
  "str_in sub [] = (sub = [])"
| "str_in sub (c # cs) = (prefix sub (c # cs) \<or> str_in sub cs)"

text \<open>
  \<open>s.count(sub)\<close>: the scan goes from left to right and resumes after the end of each
  occurrence it finds; for the empty \<open>sub\<close> the result is \<open>len(s) + 1\<close>.
\<close>

fun count_from :: "string \<Rightarrow> string \<Rightarrow> nat" where
  "count_from sub [] = 0"
| "count_from sub (c # cs) =
     (if prefix sub (c # cs) then Suc (count_from sub (drop (length sub - 1) cs))
      else count_from sub cs)"

definition str_count :: "string \<Rightarrow> string \<Rightarrow> nat" where
  "str_count s sub = (if sub = [] then length s + 1 else count_from sub s)"

text \<open>\<open>s.split(sep)\<close> for a separator of one character.\<close>

fun str_split :: "char \<Rightarrow> string \<Rightarrow> string list" where
  "str_split sep [] = [[]]"
| "str_split sep (c # cs) =
     (if c = sep then [] # str_split sep cs
      else (case str_split sep cs of [] \<Rightarrow> [[c]] | p # ps \<Rightarrow> (c # p) # ps))"

text \<open>
  \<open>re.split(r'(?<=[.!?])\s+', s)\<close>. A match of the pattern starts where the character
  before is one of \<open>.\<close>, \<open>!\<close>, \<open>?\<close> and the character there is whitespace, and the greedy
  \<open>\s+\<close> takes the whole run of whitespace; the scan resumes after the run. The pattern
  has no group, so the pieces between the matches are the result.
\<close>

definition sentence_end :: "char \<Rightarrow> bool" where
  "sentence_end c = (c \<in> set ''.!?'')"

fun at_whitespace :: "string \<Rightarrow> bool" where
  "at_whitespace [] = False"
| "at_whitespace (d # ds) = isspace d"

function re_split :: "string \<Rightarrow> string list" where
  "re_split [] = [[]]"
| "re_split (c # cs) =
     (if sentence_end c \<and> at_whitespace cs
      then [c] # re_split (dropWhile isspace cs)
      else (case re_split cs of [] \<Rightarrow> [[c]] | p # ps \<Rightarrow> (c # p) # ps))"
  by pat_completeness auto
termination
  by (relation "measure length") (auto simp: less_Suc_eq_le length_dropWhile_le)

text \<open>Decimal rendering of a non-negative integer inside an f-string.\<close>

fun str_of_nat :: "nat \<Rightarrow> string" where
  "str_of_nat n =
     (if n < 10 then [char_of (48 + n)]
      else str_of_nat (n div 10) @ [char_of (48 + n mod 10)])"

declare str_of_nat.simps [simp del]

section \<open>The word analyzer\<close>

record entry =
  count :: nat
  sentences :: "string list"

text \<open>
  The result dictionary keeps its keys in the order of their first insertion; storing under
  a key that is present replaces the value in place. That is \<open>AList.update\<close>.
\<close>

type_synonym results = "(string \<times> entry) list"

definition containing_sentences :: "string list \<Rightarrow> string \<Rightarrow> string list" where
  "containing_sentences sents word =
     map strip (filter (\<lambda>sentence. str_in word (lower sentence)) sents)"

fun words_loop :: "string \<Rightarrow> string list \<Rightarrow> string list \<Rightarrow> results \<Rightarrow> results" where
  "words_loop abstract_lower sents [] res = res"
| "words_loop abstract_lower sents (w # ws) res =
     (let word = lower w;
          cnt = str_count abstract_lower word;
          cs = containing_sentences sents word
      in words_loop abstract_lower sents ws
           (AList.update word \<lparr>count = cnt, sentences = cs\<rparr> res))"

definition analyze_words_in_abstract :: "string option \<Rightarrow> string list \<Rightarrow> results option" where
  "analyze_words_in_abstract abstract words_to_find =
     (case abstract of
        None \<Rightarrow> None
      | Some a \<Rightarrow>
          if a = [] then None
          else Some (words_loop (lower a) (re_split a) words_to_find []))"

section \<open>The parsed page\<close>

text \<open>
  The tree that \<open>BeautifulSoup(text, 'html.parser')\<close> builds, as far as the fetcher reads
  it: text nodes and tags. The value of the attribute \<open>class\<close> is a list of class names
  (\<open>None\<close> when the tag has no such attribute); the other attributes the fetcher reads
  (\<open>name\<close>, \<open>content\<close>, \<open>id\<close>) have string values and are kept as a dictionary. Comments
  and other strings that \<open>get_text\<close> leaves out are not part of the tree.
\<close>

datatype node =
    NavigableString string
  | Tag (name: string) (classes: "string list option") (attrs: "(string \<times> string) list")
        (contents: "node list")

fun descendants :: "node \<Rightarrow> node list" where
  "descendants (NavigableString s) = []"
| "descendants (Tag n cl at cs) = concat (map (\<lambda>c. c # descendants c) cs)"

fun get_text :: "node \<Rightarrow> string" where
  "get_text (NavigableString s) = s"
| "get_text (Tag n cl at cs) = concat (map get_text cs)"

fun is_tag :: "string \<Rightarrow> node \<Rightarrow> bool" where
  "is_tag nm (NavigableString s) = False"
| "is_tag nm (Tag n cl at cs) = (n = nm)"

text \<open>\<open>tag.get('class', [])\<close> and \<open>tag.get(key, default)\<close> for a string attribute.\<close>

fun get_class :: "node \<Rightarrow> string list" where
  "get_class (NavigableString s) = []"
| "get_class (Tag n cl at cs) = (case cl of None \<Rightarrow> [] | Some xs \<Rightarrow> xs)"

fun get_attr :: "node \<Rightarrow> string \<Rightarrow> string \<Rightarrow> string" where
  "get_attr (NavigableString s) key dflt = dflt"
| "get_attr (Tag n cl at cs) key dflt = (case map_of at key of None \<Rightarrow> dflt | Some v \<Rightarrow> v)"

text \<open>
  \<open>soup.find(nm, {'class': v})\<close>: the first tag below the root, in document order, named
  \<open>nm\<close> with \<open>v\<close> among its class names. \<open>soup.find(nm, {key: v})\<close> for a string attribute:
  the first such tag whose attribute \<open>key\<close> is present and equal to \<open>v\<close>.
  \<open>soup.find_all(nm)\<close>: all tags named \<open>nm\<close> below the root, in document order.
\<close>

fun attr_is :: "string \<Rightarrow> string \<Rightarrow> node \<Rightarrow> bool" where
  "attr_is key v (NavigableString s) = False"
| "attr_is key v (Tag n cl at cs) = (map_of at key = Some v)"

definition find_class :: "node \<Rightarrow> string \<Rightarrow> string \<Rightarrow> node option" where
  "find_class soup nm v = List.find (\<lambda>t. is_tag nm t \<and> v \<in> set (get_class t)) (descendants soup)"

definition find_attr :: "node \<Rightarrow> string \<Rightarrow> string \<Rightarrow> string \<Rightarrow> node option" where
  "find_attr soup nm key v = List.find (\<lambda>t. is_tag nm t \<and> attr_is key v t) (descendants soup)"

definition find_all :: "node \<Rightarrow> string \<Rightarrow> node list" where
  "find_all soup nm = filter (is_tag nm) (descendants soup)"

section \<open>The fetcher\<close>

text \<open>Truth value of an optional string: \<open>None\<close> and the empty string are false.\<close>

fun truthy :: "string option \<Rightarrow> bool" where
  "truthy None = False"
| "truthy (Some s) = (s \<noteq> [])"

text \<open>The four extraction methods, each the value it would assign to \<open>abstract\<close>.\<close>

definition method1 :: "node \<Rightarrow> string option" where
  "method1 soup =
     (case find_class soup ''div'' ''abstract'' of
        None \<Rightarrow> None
      | Some abstract_section \<Rightarrow> Some (strip (get_text abstract_section)))"

definition method2 :: "node \<Rightarrow> string option" where
  "method2 soup =
     (case find_attr soup ''meta'' ''name'' ''description'' of
        None \<Rightarrow> None
      | Some meta_desc \<Rightarrow> Some (strip (get_attr meta_desc ''content'' [])))"

definition method3 :: "node \<Rightarrow> string option" where
  "method3 soup =
     (case find_attr soup ''meta'' ''name'' ''citation_abstract'' of
        None \<Rightarrow> None
      | Some citation_abstract \<Rightarrow> Some (strip (get_attr citation_abstract ''content'' [])))"

definition looks_like_abstract :: "node \<Rightarrow> bool" where
  "looks_like_abstract p =
     (let text = strip (get_text p)
      in length text > 100 \<and>
         (''abstract'' \<in> set (get_class p) \<or> str_in ''abstract'' (get_attr p ''id'' [])))"

definition method4 :: "node \<Rightarrow> string option" where
  "method4 soup =
     (case List.find looks_like_abstract (find_all soup ''p'') of
        None \<Rightarrow> None
      | Some p \<Rightarrow> Some (strip (get_text p)))"

text \<open>
  The body of the fetcher after parsing: \<open>abstract\<close> starts as \<open>None\<close>; a method that finds
  its element assigns, a method that does not leaves \<open>abstract\<close> as it is; methods 2 to 4
  run only while \<open>abstract\<close> is false.
\<close>

definition assign :: "string option \<Rightarrow> string option \<Rightarrow> string option" where
  "assign found abstract = (case found of None \<Rightarrow> abstract | Some v \<Rightarrow> Some v)"

definition extract_abstract :: "node \<Rightarrow> string option" where
  "extract_abstract soup =
     (let abstract = None;
          abstract = assign (method1 soup) abstract;
          abstract = (if \<not> truthy abstract then assign (method2 soup) abstract else abstract);
          abstract = (if \<not> truthy abstract then assign (method3 soup) abstract else abstract);
          abstract = (if \<not> truthy abstract then assign (method4 soup) abstract else abstract)
      in abstract)"

text \<open>
  Exceptions are values: \<open>Exception msg\<close> stands for an instance of a subclass of Python's
  \<open>Exception\<close> whose \<open>str\<close> is \<open>msg\<close>. A computation that may raise returns \<open>exn + 'a\<close>.
  Interrupts and exits, which \<open>except Exception\<close> does not catch, are outside the model.
\<close>

datatype exn = Exception string

record response =
  status_code :: nat
  reason :: string
  url :: string
  resp_text :: string

text \<open>\<open>requests.Response.raise_for_status\<close>.\<close>

definition raise_for_status :: "response \<Rightarrow> exn + unit" where
  "raise_for_status r =
     (if 400 \<le> status_code r \<and> status_code r < 500
      then Inl (Exception (str_of_nat (status_code r) @ '' Client Error: '' @ reason r
                             @ '' for url: '' @ url r))
      else if 500 \<le> status_code r \<and> status_code r < 600
      then Inl (Exception (str_of_nat (status_code r) @ '' Server Error: '' @ reason r
                             @ '' for url: '' @ url r))
      else Inr ())"

text \<open>
  What the fetcher calls outside this program. The network and the random choice of a
  client identity depend on a world \<open>'w\<close> that every call may change; parsing is a function
  of the text. Each of them may raise.
\<close>

record 'w env =
  get_random_user_agent :: "'w \<Rightarrow> (exn + string) \<times> 'w"
  requests_get :: "string \<Rightarrow> string \<Rightarrow> 'w \<Rightarrow> (exn + response) \<times> 'w"
  BeautifulSoup :: "string \<Rightarrow> exn + node"

definition try_body :: "'w env \<Rightarrow> string \<Rightarrow> 'w \<Rightarrow> (exn + string option) \<times> 'w" where
  "try_body env pubmed_id w =
     (let article_url = ''https://pubmed.ncbi.nlm.nih.gov/'' @ pubmed_id @ ''/''
      in case get_random_user_agent env w of
           (Inl e, w1) \<Rightarrow> (Inl e, w1)
         | (Inr user_agent, w1) \<Rightarrow>
             (case requests_get env article_url user_agent w1 of
                (Inl e, w2) \<Rightarrow> (Inl e, w2)
              | (Inr resp, w2) \<Rightarrow>
                  (case raise_for_status resp of
                     Inl e \<Rightarrow> (Inl e, w2)
                   | Inr _ \<Rightarrow>
                       (case BeautifulSoup env (resp_text resp) of
                          Inl e \<Rightarrow> (Inl e, w2)
                        | Inr soup \<Rightarrow> (Inr (extract_abstract soup), w2)))))"

definition get_pubmed_abstract :: "'w env \<Rightarrow> string \<Rightarrow> 'w \<Rightarrow> (exn + string option) \<times> 'w" where
  "get_pubmed_abstract env pubmed_id w =
     (case try_body env pubmed_id w of
        (Inr abstract, w') \<Rightarrow> (Inr abstract, w')
      | (Inl (Exception e), w') \<Rightarrow> (Inr (Some (''Error fetching PubMed article: '' @ e)), w'))"

section \<open>The Analyze button\<close>

text \<open>
  What the handler displays is recorded as a list of events, one for each call of
  \<open>st.subheader\<close>, \<open>st.text_area\<close>, \<open>st.markdown\<close>, \<open>st.warning\<close> and \<open>st.error\<close> that
  returned, in the order of the calls.
\<close>

datatype st_event =
    is_Subheader: Subheader string
  | is_TextArea: TextArea string string
  | Markdown string
  | Warning string
  | Error string

definition parse_ids :: "string \<Rightarrow> string list" where
  "parse_ids pubmed_ids_input =
     map strip (filter (\<lambda>pid. strip pid \<noteq> []) (str_split CHR 0x0A (strip pubmed_ids_input)))"

definition parse_words :: "string \<Rightarrow> string list" where
  "parse_words words_input =
     map strip (filter (\<lambda>w. strip w \<noteq> []) (str_split CHR '','' words_input))"

text \<open>\<open>enumerate(sentences, i)\<close> with one line of output for each.\<close>

fun show_sentences :: "nat \<Rightarrow> string list \<Rightarrow> st_event list" where
  "show_sentences i [] = []"
| "show_sentences i (sentence # rest) =
     Markdown (str_of_nat i @ ''. '' @ sentence) # show_sentences (Suc i) rest"

definition show_word :: "string \<times> entry \<Rightarrow> st_event list" where
  "show_word item =
     (case item of (word, data) \<Rightarrow>
        Markdown (''**Word:** `'' @ word @ ''`  '' @ [CHR 0x0A] @ ''Count: ''
                  @ str_of_nat (count data))
        # (if sentences data \<noteq> []
           then Markdown ''Sentences containing the word:'' # show_sentences 1 (sentences data)
           else [Markdown ''No sentences found with this word.'']))"

text \<open>
  What the handler shows for the result of the analyzer (\<open>if results:\<close> is false for
  \<open>None\<close> and for the empty dictionary), and what it shows for one identifier after the
  fetcher has returned.
\<close>

definition show_analysis :: "results option \<Rightarrow> st_event list" where
  "show_analysis results =
     (case results of
        None \<Rightarrow> [Warning ''Could not analyze words in abstract.'']
      | Some res \<Rightarrow>
          if res \<noteq> [] then concat (map show_word res)
          else [Warning ''Could not analyze words in abstract.''])"

definition show_result :: "string \<Rightarrow> string list \<Rightarrow> string option \<Rightarrow> st_event list" where
  "show_result pubmed_id words_to_find abstract =
     (if truthy abstract \<and> \<not> prefix ''Error'' (the abstract)
      then TextArea ''Abstract'' (the abstract)
           # show_analysis (analyze_words_in_abstract abstract words_to_find)
      else [Error (''Could not find the abstract for PubMed ID '' @ pubmed_id @ ''.''
                   @ [CHR 0x0A] @ (if truthy abstract then the abstract else []))])"

text \<open>
  \<open>show_result\<close> is the sequence of display calls the handler makes for one identifier;
  nothing but computation on strings lies between them. Making a call can fail:
  \<open>st.text_area\<close> creates a widget, the handler gives it no \<open>key\<close>, and Streamlit derives
  the identity of the widget from its arguments, here the label and the value (the height
  is the same in every call). A second text area with the same label and value in one run
  raises \<open>StreamlitDuplicateElementId\<close> (\<open>DuplicateWidgetID\<close> in older versions). The other
  four calls create no widget and return. \<open>st_call\<close> makes one call given what has been
  shown in this run; \<open>display\<close> makes a sequence of calls and stops at the first that
  raises, keeping what was shown before.
\<close>

definition duplicate_element :: exn where
  "duplicate_element =
     Exception ''There are multiple `text_area` elements with the same auto-generated ID.''"

definition st_call :: "st_event list \<Rightarrow> st_event \<Rightarrow> exn + st_event list" where
  "st_call shown ev =
     (if is_TextArea ev \<and> ev \<in> set shown then Inl duplicate_element
      else Inr (shown @ [ev]))"

fun display :: "st_event list \<Rightarrow> st_event list \<Rightarrow> st_event list \<times> exn option" where
  "display shown [] = (shown, None)"
| "display shown (ev # evs) =
     (case st_call shown ev of
        Inl e \<Rightarrow> (shown, Some e)
      | Inr shown' \<Rightarrow> display shown' evs)"

text \<open>
  The loop over the identifiers, given what has been shown so far in this run. It returns
  what has been shown when it ends, the exception that ended the run if one reached the
  handler, and the world after the run. An exception that reaches the handler ends the
  run: nothing catches it.
\<close>

fun ids_loop ::
  "'w env \<Rightarrow> string list \<Rightarrow> string list \<Rightarrow> st_event list \<Rightarrow> 'w
   \<Rightarrow> st_event list \<times> exn option \<times> 'w" where
  "ids_loop env words_to_find [] shown w = (shown, None, w)"
| "ids_loop env words_to_find (pubmed_id # rest) shown w =
     (case display shown [Subheader (''PubMed ID: '' @ pubmed_id)] of
        (shown1, Some e) \<Rightarrow> (shown1, Some e, w)
      | (shown1, None) \<Rightarrow>
          (case get_pubmed_abstract env pubmed_id w of
             (Inl e, w') \<Rightarrow> (shown1, Some e, w')
           | (Inr abstract, w') \<Rightarrow>
               (case display shown1 (show_result pubmed_id words_to_find abstract) of
                  (shown2, Some e) \<Rightarrow> (shown2, Some e, w')
                | (shown2, None) \<Rightarrow> ids_loop env words_to_find rest shown2 w')))"

text \<open>
  The handler starts with nothing shown by itself. The elements the script creates before
  the handler runs (the title, the two inputs and the button) are of other kinds or carry
  other labels than the text area labelled "Abstract", so they cannot coincide with it.
\<close>

definition analyze_button ::
  "'w env \<Rightarrow> string \<Rightarrow> string \<Rightarrow> 'w \<Rightarrow> st_event list \<times> exn option \<times> 'w" where
  "analyze_button env pubmed_ids_input words_input w =
     ids_loop env (parse_words words_input) (parse_ids pubmed_ids_input) [] w"

section \<open>Definitions used to state the properties\<close>

text \<open>The entry that the loop of the analyzer stores under the key \<open>word\<close>.\<close>

definition entry_for :: "string \<Rightarrow> string list \<Rightarrow> string \<Rightarrow> entry" where
  "entry_for abstract_lower sents word =
     \<lparr>count = str_count abstract_lower word, sentences = containing_sentences sents word\<rparr>"

text \<open>
  Method 4 as the specification words it: the first paragraph whose class list or id
  contains the substring "abstract" and whose trimmed text is longer than 100 characters,
  the substring test applied to the class names as it is to the id.
\<close>

definition spec_looks_like_abstract :: "node \<Rightarrow> bool" where
  "spec_looks_like_abstract p =
     (100 < length (strip (get_text p)) \<and>
      (list_ex (sublist ''abstract'') (get_class p)
       \<or> sublist ''abstract'' (get_attr p ''id'' [])))"

definition method4_spec :: "node \<Rightarrow> string option" where
  "method4_spec soup =
     (case List.find spec_looks_like_abstract (find_all soup ''p'') of
        None \<Rightarrow> None
      | Some p \<Rightarrow> Some (strip (get_text p)))"

subsection \<open>What the specification says about the analyzer\<close>

text \<open>
  The sentence rule of the specification, stated on the pieces: the pieces joined by
  non-empty runs of whitespace give back the text; every piece but the last ends with one
  of the three punctuation characters; no piece after the first begins with whitespace (the
  whole run is the separator); and no piece contains a punctuation character followed by
  whitespace (no break is missed).
\<close>

fun rejoin :: "string list \<Rightarrow> string list \<Rightarrow> string" where
  "rejoin [] seps = []"
| "rejoin [p] seps = p"
| "rejoin (p # ps) [] = p @ rejoin ps []"
| "rejoin (p # ps) (sep # seps) = p @ sep @ rejoin ps seps"

definition has_break :: "string \<Rightarrow> bool" where
  "has_break p = (\<exists>i. Suc i < length p \<and> sentence_end (p ! i) \<and> isspace (p ! Suc i))"

definition is_sentence_split :: "string \<Rightarrow> string list \<Rightarrow> bool" where
  "is_sentence_split s pieces =
     ((\<exists>seps. length pieces = Suc (length seps) \<and> s = rejoin pieces seps \<and>
         (\<forall>sep \<in> set seps. sep \<noteq> [] \<and> (\<forall>c \<in> set sep. isspace c))) \<and>
      (\<forall>p \<in> set (butlast pieces). p \<noteq> [] \<and> sentence_end (last p)) \<and>
      (\<forall>p \<in> set (tl pieces). p = [] \<or> \<not> isspace (hd p)) \<and>
      (\<forall>p \<in> set pieces. \<not> has_break p))"

text \<open>
  The number of non-overlapping occurrences: \<open>sub\<close> occurs in \<open>s\<close> at position \<open>i\<close>; a list
  of positions is a family of distinct occurrences no two of which overlap; \<open>n\<close> is the
  size of a largest such family.
\<close>

definition occurs_at :: "string \<Rightarrow> string \<Rightarrow> nat \<Rightarrow> bool" where
  "occurs_at sub s i = (i + length sub \<le> length s \<and> take (length sub) (drop i s) = sub)"

definition non_overlapping :: "string \<Rightarrow> string \<Rightarrow> nat list \<Rightarrow> bool" where
  "non_overlapping sub s ps =
     ((\<forall>p \<in> set ps. occurs_at sub s p) \<and>
      sorted_wrt (\<lambda>p q. p < q \<and> p + length sub \<le> q) ps)"

definition max_non_overlapping :: "string \<Rightarrow> string \<Rightarrow> nat \<Rightarrow> bool" where
  "max_non_overlapping sub s n =
     ((\<exists>ps. non_overlapping sub s ps \<and> length ps = n) \<and>
      (\<forall>ps. non_overlapping sub s ps \<longrightarrow> length ps \<le> n))"

subsection \<open>Concrete pages and a concrete world\<close>

definition document :: "node list \<Rightarrow> node" where
  "document cs = Tag ''[document]'' None [] cs"

definition long_text :: string where
  "long_text = concat (replicate 21 ''abcd '') @ ''end.''"

text \<open>A page with an abstract container and both kinds of metadata.\<close>

definition page_full :: node where
  "page_full = document
     [Tag ''html'' None []
       [Tag ''head'' None []
          [Tag ''meta'' None [(''name'', ''citation_abstract''), (''content'', ''From the citation.'')] [],
           Tag ''meta'' None [(''name'', ''description''), (''content'', '' From the description. '')] []],
        Tag ''body'' None []
          [Tag ''div'' (Some [''abstract'', ''selected''])  [(''id'', ''abstract'')]
             [NavigableString '' '',
              Tag ''p'' None [] [NavigableString ''Cats are great. ''],
              Tag ''p'' None [] [NavigableString ''Dogs are great too! '']]]]]"

text \<open>
  A page where only method 4 can find something: a short paragraph of class \<open>abstract\<close>, a
  long paragraph whose class name merely contains "abstract", and a long paragraph whose id
  contains "abstract".
\<close>

definition page_paragraphs :: node where
  "page_paragraphs = document
     [Tag ''div'' (Some [''content'']) []
        [Tag ''p'' (Some [''abstract'']) [] [NavigableString ''Too short.''],
         Tag ''p'' (Some [''abstract-text'']) [] [NavigableString (''First '' @ long_text)],
         Tag ''p'' None [(''id'', ''eng-abstract'')] [NavigableString ('' Second '' @ long_text @ '' '')]]]"

definition page_class_substring :: node where
  "page_class_substring = document
     [Tag ''p'' (Some [''abstract-text'']) [] [NavigableString (''First '' @ long_text)]]"

text \<open>A page whose abstract begins with the word "Error".\<close>

definition page_error_word :: node where
  "page_error_word = document
     [Tag ''div'' (Some [''abstract'']) [] [NavigableString ''Error rates were low.'']]"

text \<open>
  A world that counts the calls made to it. Identifier \<open>1\<close> has the full page,
  identifier \<open>2\<close> is answered with status 404, identifier \<open>3\<close> cannot be reached,
  identifier \<open>4\<close> has a page the parser rejects, identifier \<open>5\<close> has the page whose
  abstract begins with "Error", identifier \<open>6\<close> is answered with status 304 and no body,
  identifier \<open>8\<close> with status 300 and the full page as its body; any other identifier has
  an empty page.
\<close>

definition test_get :: "string \<Rightarrow> string \<Rightarrow> nat \<Rightarrow> (exn + response) \<times> nat" where
  "test_get u ua w =
     (if u = ''https://pubmed.ncbi.nlm.nih.gov/1/''
      then (Inr \<lparr>status_code = 200, reason = ''OK'', url = u, resp_text = ''full''\<rparr>, Suc w)
      else if u = ''https://pubmed.ncbi.nlm.nih.gov/2/''
      then (Inr \<lparr>status_code = 404, reason = ''Not Found'', url = u, resp_text = []\<rparr>, Suc w)
      else if u = ''https://pubmed.ncbi.nlm.nih.gov/3/''
      then (Inl (Exception ''Connection refused''), Suc w)
      else if u = ''https://pubmed.ncbi.nlm.nih.gov/4/''
      then (Inr \<lparr>status_code = 200, reason = ''OK'', url = u, resp_text = ''bad''\<rparr>, Suc w)
      else if u = ''https://pubmed.ncbi.nlm.nih.gov/5/''
      then (Inr \<lparr>status_code = 200, reason = ''OK'', url = u, resp_text = ''error''\<rparr>, Suc w)
      else if u = ''https://pubmed.ncbi.nlm.nih.gov/6/''
      then (Inr \<lparr>status_code = 304, reason = ''Not Modified'', url = u, resp_text = []\<rparr>, Suc w)
      else if u = ''https://pubmed.ncbi.nlm.nih.gov/8/''
      then (Inr \<lparr>status_code = 300, reason = ''Multiple Choices'', url = u,
                 resp_text = ''full''\<rparr>, Suc w)
      else (Inr \<lparr>status_code = 200, reason = ''OK'', url = u, resp_text = []\<rparr>, Suc w))"

definition test_parse :: "string \<Rightarrow> exn + node" where
  "test_parse t =
     (if t = ''full'' then Inr page_full
      else if t = ''bad'' then Inl (Exception ''maximum recursion depth exceeded'')
      else if t = ''error'' then Inr page_error_word
      else Inr (document []))"

definition test_env :: "nat env" where
  "test_env =
     \<lparr>get_random_user_agent = (\<lambda>w. (Inr ''Mozilla/5.0'', Suc w)),
      requests_get = test_get,
      BeautifulSoup = test_parse\<rparr>"

section \<open>Properties of the string operations\<close>

lemma str_in_sublist: "str_in sub s = sublist sub s"
  by (induction s) (auto simp: sublist_Cons_right)

lemma lower_sublist: "sublist xs ys \<Longrightarrow> sublist (lower xs) (lower ys)"
  unfolding lower_def by (rule map_mono_sublist)

lemma count_from_pos: "sub \<noteq> [] \<Longrightarrow> sublist sub s \<Longrightarrow> 0 < count_from sub s"
  by (induction s) (auto simp: sublist_Cons_right)

lemma str_count_pos: "str_in sub s \<Longrightarrow> 0 < str_count s sub"
  by (simp add: str_count_def str_in_sublist count_from_pos)

lemma re_split_nonempty: "re_split s \<noteq> []"
  by (induction s rule: re_split.induct) (auto split: list.split)

lemma re_split_hd_prefix: "prefix (hd (re_split s)) s"
  by (induction s rule: re_split.induct) (auto split: list.splits)

lemma sublist_dropWhile_trans: "sublist p (dropWhile P cs) \<Longrightarrow> sublist p (c # cs)"
  by (meson sublist_Cons_right sublist_dropWhile sublist_order.order_trans)

lemma re_split_sublist: "p \<in> set (re_split s) \<Longrightarrow> sublist p s"
proof (induction s arbitrary: p rule: re_split.induct)
  case 1
  then show ?case by simp
next
  case (2 c cs)
  show ?case
  proof (cases "sentence_end c \<and> at_whitespace cs")
    case True
    with "2.prems" have "p = [c] \<or> p \<in> set (re_split (dropWhile isspace cs))" by auto
    then show ?thesis
    proof
      assume "p = [c]"
      then show ?thesis by (simp add: sublist_Cons_right)
    next
      assume "p \<in> set (re_split (dropWhile isspace cs))"
      with "2.IH"(1) True have "sublist p (dropWhile isspace cs)" by blast
      then show ?thesis by (rule sublist_dropWhile_trans)
    qed
  next
    case False
    obtain q qs where q: "re_split cs = q # qs"
      using re_split_nonempty by (cases "re_split cs") auto
    with False "2.prems" have "p = c # q \<or> p \<in> set qs" by auto
    then show ?thesis
    proof
      assume p: "p = c # q"
      have "prefix q cs" using re_split_hd_prefix [of cs] q by simp
      then show ?thesis using p by (simp add: sublist_Cons_right)
    next
      assume "p \<in> set qs"
      then have "sublist p cs" using "2.IH"(2) False q by simp
      then show ?thesis by (simp add: sublist_Cons_right)
    qed
  qed
qed

section \<open>Properties of the sentence splitter\<close>

lemma re_split_break:
  "sentence_end c \<Longrightarrow> at_whitespace cs \<Longrightarrow>
   re_split (c # cs) = [c] # re_split (dropWhile isspace cs)"
  by simp

lemma re_split_no_break_step:
  "\<not> (sentence_end c \<and> at_whitespace cs) \<Longrightarrow> re_split cs = q # qs \<Longrightarrow>
   re_split (c # cs) = (c # q) # qs"
  by auto

declare re_split.simps(2) [simp del]

lemma takeWhile_at_whitespace: "at_whitespace cs \<Longrightarrow> takeWhile isspace cs \<noteq> []"
  by (cases cs) auto

lemma rejoin_first:
  "rejoin ((c # q) # qs) seps = c # rejoin (q # qs) seps"
  by (cases qs; cases seps) auto

lemma re_split_rejoin:
  "\<exists>seps. length (re_split s) = Suc (length seps) \<and> s = rejoin (re_split s) seps \<and>
     (\<forall>sep \<in> set seps. sep \<noteq> [] \<and> (\<forall>c \<in> set sep. isspace c))"
proof (induction s rule: re_split.induct)
  case 1
  show ?case by simp
next
  case (2 c cs)
  show ?case
  proof (cases "sentence_end c \<and> at_whitespace cs")
    case True
    let ?rest = "dropWhile isspace cs"
    from "2.IH"(1) True obtain seps where seps:
      "length (re_split ?rest) = Suc (length seps)" "?rest = rejoin (re_split ?rest) seps"
      "\<forall>sep \<in> set seps. sep \<noteq> [] \<and> (\<forall>c \<in> set sep. isspace c)"
      by blast
    obtain q qs where q: "re_split ?rest = q # qs"
      using re_split_nonempty by (cases "re_split ?rest") auto
    let ?seps = "takeWhile isspace cs # seps"
    have rs: "re_split (c # cs) = [c] # q # qs" using True q by (simp add: re_split_break)
    have "length (re_split (c # cs)) = Suc (length ?seps)" using rs q seps(1) by simp
    moreover have "c # cs = rejoin (re_split (c # cs)) ?seps"
    proof -
      have "rejoin (re_split (c # cs)) ?seps = [c] @ takeWhile isspace cs @ rejoin (q # qs) seps"
        using rs by simp
      also have "\<dots> = [c] @ takeWhile isspace cs @ ?rest"
        using seps(2) q by simp
      finally show ?thesis by simp
    qed
    moreover have "\<forall>sep \<in> set ?seps. sep \<noteq> [] \<and> (\<forall>c \<in> set sep. isspace c)"
      using True seps(3) by (auto simp: takeWhile_at_whitespace dest: set_takeWhileD)
    ultimately show ?thesis by blast
  next
    case False
    from "2.IH"(2) False obtain seps where seps:
      "length (re_split cs) = Suc (length seps)" "cs = rejoin (re_split cs) seps"
      "\<forall>sep \<in> set seps. sep \<noteq> [] \<and> (\<forall>c \<in> set sep. isspace c)"
      by blast
    obtain q qs where q: "re_split cs = q # qs"
      using re_split_nonempty by (cases "re_split cs") auto
    have rs: "re_split (c # cs) = (c # q) # qs" using False q by (rule re_split_no_break_step)
    have "length (re_split (c # cs)) = Suc (length seps)" using rs q seps(1) by simp
    moreover have "c # cs = rejoin (re_split (c # cs)) seps"
      using rs q seps(2) by (simp add: rejoin_first)
    ultimately show ?thesis using seps(3) by blast
  qed
qed

lemma re_split_ends:
  "p \<in> set (butlast (re_split s)) \<Longrightarrow> p \<noteq> [] \<and> sentence_end (last p)"
proof (induction s arbitrary: p rule: re_split.induct)
  case 1
  then show ?case by simp
next
  case (2 c cs)
  show ?case
  proof (cases "sentence_end c \<and> at_whitespace cs")
    case True
    with "2.prems" have "p = [c] \<or> p \<in> set (butlast (re_split (dropWhile isspace cs)))"
      by (auto simp: re_split_nonempty re_split_break)
    then show ?thesis using "2.IH"(1) True by auto
  next
    case False
    obtain q qs where q: "re_split cs = q # qs"
      using re_split_nonempty by (cases "re_split cs") auto
    show ?thesis
    proof (cases "qs = []")
      case True
      with False q have "re_split (c # cs) = [c # q]" by (simp add: re_split_no_break_step)
      with "2.prems" show ?thesis by simp
    next
      case qs: False
      then have "q \<in> set (butlast (re_split cs))" using q by simp
      then have qe: "q \<noteq> [] \<and> sentence_end (last q)" using "2.IH"(2) False by blast
      from False q have "re_split (c # cs) = (c # q) # qs" by (rule re_split_no_break_step)
      with qs "2.prems" have "p = c # q \<or> p \<in> set (butlast qs)" by simp
      then show ?thesis
      proof
        assume "p = c # q"
        with qe show ?thesis by simp
      next
        assume "p \<in> set (butlast qs)"
        then have "p \<in> set (butlast (re_split cs))" using q qs by simp
        then show ?thesis using "2.IH"(2) False by blast
      qed
    qed
  qed
qed

lemma prefix_hd: "prefix q cs \<Longrightarrow> q \<noteq> [] \<Longrightarrow> hd q = hd cs"
  by (cases q; cases cs) auto

lemma re_split_starts:
  "p \<in> set (tl (re_split s)) \<Longrightarrow> p = [] \<or> \<not> isspace (hd p)"
proof (induction s arbitrary: p rule: re_split.induct)
  case 1
  then show ?case by simp
next
  case (2 c cs)
  show ?case
  proof (cases "sentence_end c \<and> at_whitespace cs")
    case True
    let ?rest = "dropWhile isspace cs"
    obtain q qs where q: "re_split ?rest = q # qs"
      using re_split_nonempty by (cases "re_split ?rest") auto
    from True "2.prems" q have "p = q \<or> p \<in> set qs" by (simp add: re_split_break)
    then show ?thesis
    proof
      assume p: "p = q"
      have pre: "prefix q ?rest" using re_split_hd_prefix [of ?rest] q by simp
      show ?thesis
      proof (cases "q = []")
        case True
        with p show ?thesis by simp
      next
        case False
        with pre have "hd q = hd ?rest" by (rule prefix_hd)
        moreover from pre False have "?rest \<noteq> []" by (metis prefix_Nil)
        ultimately have "\<not> isspace (hd q)" using hd_dropWhile [of isspace cs] by metis
        with p show ?thesis by simp
      qed
    next
      assume "p \<in> set qs"
      then have "p \<in> set (tl (re_split ?rest))" using q by simp
      then show ?thesis using "2.IH"(1) True by blast
    qed
  next
    case False
    obtain q qs where q: "re_split cs = q # qs"
      using re_split_nonempty by (cases "re_split cs") auto
    with False "2.prems" have "p \<in> set (tl (re_split cs))"
      by (simp add: re_split_no_break_step)
    then show ?thesis using "2.IH"(2) False by blast
  qed
qed

lemma has_break_Cons:
  "has_break (c # q) \<longleftrightarrow> (sentence_end c \<and> at_whitespace q) \<or> has_break q"
proof -
  have "has_break (c # q) \<longleftrightarrow>
      (Suc 0 < length (c # q) \<and> sentence_end ((c # q) ! 0) \<and> isspace ((c # q) ! Suc 0)) \<or>
      (\<exists>i. Suc (Suc i) < length (c # q) \<and> sentence_end ((c # q) ! Suc i)
            \<and> isspace ((c # q) ! Suc (Suc i)))"
    unfolding has_break_def by (metis (no_types, lifting) not0_implies_Suc)
  also have "\<dots> \<longleftrightarrow> (sentence_end c \<and> at_whitespace q) \<or> has_break q"
    by (cases q) (auto simp: has_break_def)
  finally show ?thesis .
qed

lemma prefix_at_whitespace: "prefix q cs \<Longrightarrow> at_whitespace q \<Longrightarrow> at_whitespace cs"
  by (cases q; cases cs) auto

lemma re_split_no_break: "p \<in> set (re_split s) \<Longrightarrow> \<not> has_break p"
proof (induction s arbitrary: p rule: re_split.induct)
  case 1
  then show ?case by (simp add: has_break_def)
next
  case (2 c cs)
  show ?case
  proof (cases "sentence_end c \<and> at_whitespace cs")
    case True
    with "2.prems" have "p = [c] \<or> p \<in> set (re_split (dropWhile isspace cs))"
      by (auto simp: re_split_break)
    then show ?thesis using "2.IH"(1) True by (auto simp: has_break_def)
  next
    case False
    obtain q qs where q: "re_split cs = q # qs"
      using re_split_nonempty by (cases "re_split cs") auto
    with False "2.prems" have "p = c # q \<or> p \<in> set qs"
      by (auto simp: re_split_no_break_step)
    then show ?thesis
    proof
      assume p: "p = c # q"
      have "prefix q cs" using re_split_hd_prefix [of cs] q by simp
      then have "\<not> (sentence_end c \<and> at_whitespace q)"
        using False prefix_at_whitespace by blast
      moreover have "\<not> has_break q" using "2.IH"(2) False q by simp
      ultimately show ?thesis using p by (simp add: has_break_Cons)
    next
      assume "p \<in> set qs"
      then show ?thesis using "2.IH"(2) False q by simp
    qed
  qed
qed

lemma re_split_is_sentence_split: "is_sentence_split s (re_split s)"
  unfolding is_sentence_split_def
  using re_split_rejoin [of s] re_split_ends [of _ s] re_split_starts [of _ s]
    re_split_no_break [of _ s]
  by blast

section \<open>The count is the number of non-overlapping occurrences\<close>

lemma occurs_at_0: "occurs_at sub s 0 \<longleftrightarrow> prefix sub s"
  by (auto simp: occurs_at_def prefix_def) (metis append_take_drop_id)

lemma occurs_at_drop: "k \<le> i \<Longrightarrow> occurs_at sub s i \<Longrightarrow> occurs_at sub (drop k s) (i - k)"
  by (auto simp: occurs_at_def)

lemma occurs_at_undrop: "k \<le> length s \<Longrightarrow> occurs_at sub (drop k s) i \<Longrightarrow> occurs_at sub s (i + k)"
  by (auto simp: occurs_at_def)

lemma non_overlapping_drop:
  assumes "non_overlapping sub s ps" and "\<forall>p \<in> set ps. k \<le> p"
  shows "non_overlapping sub (drop k s) (map (\<lambda>q. q - k) ps)"
proof -
  have "sorted_wrt (\<lambda>p q. p - k < q - k \<and> p - k + length sub \<le> q - k) ps"
    using assms by (auto simp: non_overlapping_def intro!: sorted_wrt_mono_rel [where P = "\<lambda>p q. p < q \<and> p + length sub \<le> q"])
  then show ?thesis
    using assms by (auto simp: non_overlapping_def sorted_wrt_map occurs_at_drop)
qed

lemma non_overlapping_undrop:
  assumes "non_overlapping sub (drop k s) ps" and "k \<le> length s"
  shows "non_overlapping sub s (map (\<lambda>q. q + k) ps)"
  using assms by (auto simp: non_overlapping_def sorted_wrt_map occurs_at_undrop)

lemma non_overlapping_Nil: "sub \<noteq> [] \<Longrightarrow> non_overlapping sub [] ps \<Longrightarrow> ps = []"
  by (cases ps) (auto simp: non_overlapping_def occurs_at_def)

lemma count_from_upper:
  "sub \<noteq> [] \<Longrightarrow> non_overlapping sub s ps \<Longrightarrow> length ps \<le> count_from sub s"
proof (induction sub s arbitrary: ps rule: count_from.induct)
  case (1 sub)
  then show ?case using non_overlapping_Nil by fastforce
next
  case (2 sub c cs)
  let ?n = "length sub"
  from "2.prems"(1) have n: "0 < ?n" by simp
  show ?case
  proof (cases "prefix sub (c # cs)")
    case True
    show ?thesis
    proof (cases ps)
      case Nil
      then show ?thesis by simp
    next
      case (Cons p rest)
      with "2.prems"(2) have rest: "non_overlapping sub (c # cs) rest"
        and ge: "\<forall>q \<in> set rest. p + ?n \<le> q"
        by (auto simp: non_overlapping_def)
      from ge have "\<forall>q \<in> set rest. ?n \<le> q" by auto
      with rest have "non_overlapping sub (drop ?n (c # cs)) (map (\<lambda>q. q - ?n) rest)"
        by (rule non_overlapping_drop)
      moreover have "drop ?n (c # cs) = drop (?n - 1) cs" using n by (cases ?n) auto
      ultimately have "non_overlapping sub (drop (?n - 1) cs) (map (\<lambda>q. q - ?n) rest)"
        by simp
      then have "length (map (\<lambda>q. q - ?n) rest) \<le> count_from sub (drop (?n - 1) cs)"
        by (rule "2.IH"(1) [OF True "2.prems"(1)])
      with True Cons show ?thesis by simp
    qed
  next
    case False
    then have "\<not> occurs_at sub (c # cs) 0" by (simp add: occurs_at_0)
    with "2.prems"(2) have "\<forall>p \<in> set ps. 1 \<le> p"
      by (metis non_overlapping_def One_nat_def Suc_leI neq0_conv)
    with "2.prems"(2) have "non_overlapping sub (drop 1 (c # cs)) (map (\<lambda>q. q - 1) ps)"
      by (rule non_overlapping_drop)
    then have "non_overlapping sub cs (map (\<lambda>q. q - 1) ps)" by simp
    then have "length (map (\<lambda>q. q - 1) ps) \<le> count_from sub cs"
      by (rule "2.IH"(2) [OF False "2.prems"(1)])
    with False show ?thesis by simp
  qed
qed

lemma count_from_lower:
  "sub \<noteq> [] \<Longrightarrow> \<exists>ps. non_overlapping sub s ps \<and> length ps = count_from sub s"
proof (induction sub s rule: count_from.induct)
  case (1 sub)
  have "non_overlapping sub [] []" by (simp add: non_overlapping_def)
  then show ?case by fastforce
next
  case (2 sub c cs)
  let ?n = "length sub"
  from "2.prems" have n: "0 < ?n" by simp
  show ?case
  proof (cases "prefix sub (c # cs)")
    case True
    from "2.IH"(1) [OF True "2.prems"] obtain ps where
      ps: "non_overlapping sub (drop (?n - 1) cs) ps" "length ps = count_from sub (drop (?n - 1) cs)"
      by blast
    have d: "drop ?n (c # cs) = drop (?n - 1) cs" using n by (cases ?n) auto
    have le: "?n \<le> length (c # cs)" using True by (rule prefix_length_le)
    from ps(1) d have "non_overlapping sub (drop ?n (c # cs)) ps" by simp
    then have sh: "non_overlapping sub (c # cs) (map (\<lambda>q. q + ?n) ps)"
      using le by (rule non_overlapping_undrop)
    have "non_overlapping sub (c # cs) (0 # map (\<lambda>q. q + ?n) ps)"
      using sh True n by (auto simp: non_overlapping_def occurs_at_0)
    moreover have "length (0 # map (\<lambda>q. q + ?n) ps) = count_from sub (c # cs)"
      using True ps(2) by simp
    ultimately show ?thesis by blast
  next
    case False
    from "2.IH"(2) [OF False "2.prems"] obtain ps where
      ps: "non_overlapping sub cs ps" "length ps = count_from sub cs"
      by blast
    from ps(1) have "non_overlapping sub (drop 1 (c # cs)) ps" by simp
    then have "non_overlapping sub (c # cs) (map (\<lambda>q. q + 1) ps)"
      by (rule non_overlapping_undrop) simp
    moreover have "length (map (\<lambda>q. q + 1) ps) = count_from sub (c # cs)"
      using False ps(2) by simp
    ultimately show ?thesis by blast
  qed
qed

lemma less_and_le: "(\<lambda>p q::nat. p < q \<and> p \<le> q) = (<)"
  by (intro ext) auto

lemma empty_upper: "non_overlapping [] s ps \<Longrightarrow> length ps \<le> length s + 1"
proof -
  assume a: "non_overlapping [] s ps"
  then have "sorted_wrt (<) ps" by (simp add: non_overlapping_def less_and_le)
  then have "distinct ps" by (simp add: strict_sorted_iff)
  then have "length ps = card (set ps)" by (simp add: distinct_card)
  also have "set ps \<subseteq> {0..length s}" using a by (auto simp: non_overlapping_def occurs_at_def)
  then have "card (set ps) \<le> card {0..length s}" by (intro card_mono) auto
  finally show ?thesis by simp
qed

lemma empty_lower: "non_overlapping [] s [0..<length s + 1] \<and> length [0..<length s + 1] = length s + 1"
  by (auto simp: non_overlapping_def occurs_at_def less_and_le sorted_wrt_append)

lemma str_count_max_non_overlapping: "max_non_overlapping sub s (str_count s sub)"
proof (cases "sub = []")
  case True
  then show ?thesis
    unfolding max_non_overlapping_def str_count_def
    using empty_upper [of s] empty_lower [of s] by auto
next
  case False
  then show ?thesis
    unfolding max_non_overlapping_def str_count_def
    using count_from_upper [of sub s] count_from_lower [of sub s] by auto
qed

section \<open>Properties of the word analyzer\<close>

lemma map_of_words_loop:
  "map_of (words_loop al sents ws res) k =
     (if k \<in> lower ` set ws then Some (entry_for al sents k) else map_of res k)"
  by (induction ws arbitrary: res) (auto simp: Let_def update_conv' entry_for_def)

lemma set_update_cases: "x \<in> set (AList.update k v al) \<Longrightarrow> x = (k, v) \<or> x \<in> set al"
  by (induction al) (auto split: if_splits)

lemma set_words_loop:
  "(k, e) \<in> set (words_loop al sents ws res) \<Longrightarrow> e = entry_for al sents k \<or> (k, e) \<in> set res"
proof (induction ws arbitrary: res)
  case Nil
  then show ?case by simp
next
  case (Cons w ws)
  from Cons.prems have "(k, e) \<in> set (words_loop al sents ws
      (AList.update (lower w) (entry_for al sents (lower w)) res))"
    by (simp add: Let_def entry_for_def)
  then have "e = entry_for al sents k \<or>
      (k, e) \<in> set (AList.update (lower w) (entry_for al sents (lower w)) res)"
    by (rule Cons.IH)
  then show ?case using set_update_cases by fastforce
qed

text \<open>
  C8. For every list of terms, the analyzer applied to an absent abstract and the analyzer
  applied to the empty string both return the absent result: no mapping is produced.
\<close>

theorem analyze_absent_or_empty:
  "analyze_words_in_abstract None words_to_find = None \<and>
   analyze_words_in_abstract (Some []) words_to_find = None"
  by (simp add: analyze_words_in_abstract_def)

theorem analyze_absent_or_empty_witness:
  "analyze_words_in_abstract None [''great'', ''cats''] = None \<and>
   analyze_words_in_abstract (Some []) [''great'', ''cats''] = None"
  by (rule analyze_absent_or_empty)

text \<open>
  C10. For every non-empty abstract, every entry of the analyzer's result that lists at
  least one matching sentence has a count of at least 1: a sentence is a contiguous part of
  the abstract, so a term found in a sentence is found in the abstract.
\<close>

theorem matching_sentence_implies_count:
  assumes "abstract \<noteq> []"
    and "analyze_words_in_abstract (Some abstract) words_to_find = Some res"
    and "(word, data) \<in> set res"
    and "sentences data \<noteq> []"
  shows "1 \<le> count data"
proof -
  from assms(1,2) have res: "res = words_loop (lower abstract) (re_split abstract) words_to_find []"
    by (simp add: analyze_words_in_abstract_def)
  with assms(3) have data: "data = entry_for (lower abstract) (re_split abstract) word"
    using set_words_loop by fastforce
  with assms(4) obtain sentence where s: "sentence \<in> set (re_split abstract)"
    and "str_in word (lower sentence)"
    by (auto simp: entry_for_def containing_sentences_def filter_empty_conv)
  then have "sublist word (lower sentence)" by (simp add: str_in_sublist)
  moreover have "sublist (lower sentence) (lower abstract)"
    using s by (intro lower_sublist re_split_sublist)
  ultimately have "str_in word (lower abstract)"
    using str_in_sublist sublist_order.order_trans by blast
  then have "0 < str_count (lower abstract) word" by (rule str_count_pos)
  then show ?thesis by (simp add: data entry_for_def)
qed

theorem matching_sentence_implies_count_witness:
  "analyze_words_in_abstract (Some ''Cats are GREAT. Dogs bark. Great!'') [''cats'', ''Great'']
     = Some [(''cats'', \<lparr>count = 1, sentences = [''Cats are GREAT.'']\<rparr>),
             (''great'', \<lparr>count = 2, sentences = [''Cats are GREAT.'', ''Great!'']\<rparr>)]
   \<and> 1 \<le> count \<lparr>count = 2, sentences = [''Cats are GREAT.'', ''Great!'']\<rparr>"
proof -
  let ?abstract = "''Cats are GREAT. Dogs bark. Great!''"
  let ?data = "\<lparr>count = 2, sentences = [''Cats are GREAT.'', ''Great!'']\<rparr>"
  let ?res = "[(''cats'', \<lparr>count = 1, sentences = [''Cats are GREAT.'']\<rparr>), (''great'', ?data)]"
  have h1: "?abstract \<noteq> []" by simp
  have h2: "analyze_words_in_abstract (Some ?abstract) [''cats'', ''Great''] = Some ?res"
    by code_simp
  have h3: "(''great'', ?data) \<in> set ?res" by simp
  have h4: "sentences ?data \<noteq> []" by simp
  from matching_sentence_implies_count [OF h1 h2 h3 h4] h2 show ?thesis by simp
qed

lemma analyze_entry:
  assumes "abstract \<noteq> []" and "word \<in> set words_to_find"
  shows "\<exists>res. analyze_words_in_abstract (Some abstract) words_to_find = Some res \<and>
           map_of res (lower word)
             = Some (entry_for (lower abstract) (re_split abstract) (lower word))"
  using assms by (simp add: analyze_words_in_abstract_def map_of_words_loop)

text \<open>
  C5. The analyzer splits the abstract by the sentence rule: a break after every \<open>.\<close>,
  \<open>!\<close> or \<open>?\<close> that is followed by whitespace, the punctuation staying with the sentence
  before it and the whitespace dropped. For each term the entry lists exactly the pieces
  whose lower-cased form contains the lower-cased term, in the order of the text, each
  trimmed and otherwise unchanged. The example of the specification is the witness.
\<close>

theorem sentences_of_entry:
  assumes "abstract \<noteq> []" and "word \<in> set words_to_find"
  shows "\<exists>res data.
           analyze_words_in_abstract (Some abstract) words_to_find = Some res \<and>
           map_of res (lower word) = Some data \<and>
           sentences data =
             map strip (filter (\<lambda>sentence. sublist (lower word) (lower sentence))
                          (re_split abstract)) \<and>
           is_sentence_split abstract (re_split abstract)"
proof -
  from analyze_entry [OF assms] obtain res where
    res: "analyze_words_in_abstract (Some abstract) words_to_find = Some res"
      "map_of res (lower word)
         = Some (entry_for (lower abstract) (re_split abstract) (lower word))"
    by blast
  have "sentences (entry_for (lower abstract) (re_split abstract) (lower word)) =
          map strip (filter (\<lambda>sentence. sublist (lower word) (lower sentence))
                       (re_split abstract))"
    by (simp add: entry_for_def containing_sentences_def str_in_sublist)
  with res re_split_is_sentence_split [of abstract] show ?thesis by blast
qed

theorem sentences_of_entry_witness:
  "analyze_words_in_abstract (Some ''Cats are great. Dogs are great too!'') [''great'']
     = Some [(''great'', \<lparr>count = 2, sentences = [''Cats are great.'', ''Dogs are great too!'']\<rparr>)]
   \<and> re_split ''Cats are great. Dogs are great too!'' = [''Cats are great.'', ''Dogs are great too!'']
   \<and> sentences (the (map_of (the (analyze_words_in_abstract
          (Some ''Cats are great. Dogs are great too!'') [''great''])) ''great''))
       = [''Cats are great.'', ''Dogs are great too!'']
   \<and> is_sentence_split ''Cats are great. Dogs are great too!''
        [''Cats are great.'', ''Dogs are great too!'']"
proof -
  let ?a = "''Cats are great. Dogs are great too!''"
  have h1: "?a \<noteq> []" by simp
  have h2: "''great'' \<in> set [''great'']" by simp
  have lw: "lower ''great'' = ''great''" by code_simp
  have sp: "re_split ?a = [''Cats are great.'', ''Dogs are great too!'']" by code_simp
  have an: "analyze_words_in_abstract (Some ?a) [''great'']
     = Some [(''great'', \<lparr>count = 2, sentences = [''Cats are great.'', ''Dogs are great too!'']\<rparr>)]"
    by code_simp
  have flt: "map strip (filter (\<lambda>sentence. sublist ''great'' (lower sentence))
                          [''Cats are great.'', ''Dogs are great too!''])
             = [''Cats are great.'', ''Dogs are great too!'']"
    by code_simp
  from sentences_of_entry [OF h1 h2] obtain res data where
    r: "analyze_words_in_abstract (Some ?a) [''great''] = Some res"
       "map_of res (lower ''great'') = Some data"
       "sentences data = map strip (filter (\<lambda>sentence. sublist (lower ''great'') (lower sentence))
                          (re_split ?a))"
       "is_sentence_split ?a (re_split ?a)"
    by blast
  from r(1,2) lw have "the (map_of (the (analyze_words_in_abstract (Some ?a) [''great''])) ''great'') = data"
    by simp
  moreover from r(3) lw sp flt have "sentences data = [''Cats are great.'', ''Dogs are great too!'']"
    by simp
  moreover from r(4) sp have "is_sentence_split ?a [''Cats are great.'', ''Dogs are great too!'']"
    by simp
  ultimately show ?thesis using an sp by simp
qed

lemma strip_hd: "strip s \<noteq> [] \<Longrightarrow> \<not> isspace (hd (strip s))"
proof -
  assume ne: "strip s \<noteq> []"
  let ?u = "dropWhile isspace s"
  from ne have u: "?u \<noteq> []" unfolding strip_def by fastforce
  then have hu: "\<not> isspace (hd ?u)" by (rule hd_dropWhile)
  have "rev ?u = takeWhile isspace (rev ?u) @ dropWhile isspace (rev ?u)" by simp
  then have "?u = strip s @ rev (takeWhile isspace (rev ?u))"
    unfolding strip_def by (metis rev_append rev_rev_ident)
  with ne have "hd ?u = hd (strip s)" by (metis hd_append2)
  with hu show ?thesis by simp
qed

lemma strip_last: "strip s \<noteq> [] \<Longrightarrow> \<not> isspace (last (strip s))"
proof -
  assume ne: "strip s \<noteq> []"
  let ?v = "dropWhile isspace (rev (dropWhile isspace s))"
  from ne have v: "?v \<noteq> []" by (simp add: strip_def)
  then have "\<not> isspace (hd ?v)" by (rule hd_dropWhile)
  moreover have "last (strip s) = hd ?v" using v by (simp add: strip_def last_rev)
  ultimately show ?thesis by simp
qed

lemma strip_id: "(s \<noteq> [] \<Longrightarrow> \<not> isspace (hd s) \<and> \<not> isspace (last s)) \<Longrightarrow> strip s = s"
proof (cases "s = []")
  case True
  then show ?thesis by (simp add: strip_def)
next
  case False
  assume "s \<noteq> [] \<Longrightarrow> \<not> isspace (hd s) \<and> \<not> isspace (last s)"
  with False have h: "\<not> isspace (hd s)" "\<not> isspace (last s)" by auto
  from False h(1) have "dropWhile isspace s = s" by (cases s) auto
  moreover from False h(2) have "dropWhile isspace (rev s) = rev s"
    by (cases "rev s") (auto simp: last_rev hd_rev)
  ultimately show ?thesis by (simp add: strip_def)
qed

lemma strip_strip: "strip (strip s) = strip s"
  using strip_hd [of s] strip_last [of s] by (intro strip_id) blast

lemma parse_words_trimmed: "w \<in> set (parse_words words_input) \<Longrightarrow> strip w = w \<and> w \<noteq> []"
  by (auto simp: parse_words_def strip_strip)

text \<open>
  C3, as the specification states it, fails: the analyzer lower-cases a term and does not
  trim it. For the term " Cat" the only key of the result is " cat"; there is no entry
  under the lower-cased, trimmed term "cat".
\<close>

theorem analyze_key_counterexample:
  "map fst (the (analyze_words_in_abstract (Some ''a cat'') ['' Cat''])) = ['' cat'']
   \<and> lower (strip '' Cat'') = ''cat''
   \<and> map_of (the (analyze_words_in_abstract (Some ''a cat'') ['' Cat''])) (lower (strip '' Cat''))
       = None"
  by code_simp

text \<open>
  C3, amended. For a non-empty abstract the keys of the result are exactly the lower-cased
  terms: every term \<open>t\<close> of the input list has an entry under \<open>lower t\<close>. The analyzer
  does not trim; the terms the handler passes are trimmed already, so for them the entry is
  under the lower-cased, trimmed term.
\<close>

theorem analyze_keys_lowered:
  assumes "abstract \<noteq> []"
  shows "\<exists>res. analyze_words_in_abstract (Some abstract) words_to_find = Some res \<and>
           fst ` set res = lower ` set words_to_find \<and>
           (\<forall>word \<in> set words_to_find. \<exists>data. map_of res (lower word) = Some data) \<and>
           (\<forall>words_input. words_to_find = parse_words words_input \<longrightarrow>
              (\<forall>word \<in> set words_to_find. map_of res (lower (strip word)) \<noteq> None))"
proof -
  let ?res = "words_loop (lower abstract) (re_split abstract) words_to_find []"
  have res: "analyze_words_in_abstract (Some abstract) words_to_find = Some ?res"
    using assms by (simp add: analyze_words_in_abstract_def)
  have m: "map_of ?res (lower word)
             = Some (entry_for (lower abstract) (re_split abstract) (lower word))"
    if "word \<in> set words_to_find" for word
    using that by (simp add: map_of_words_loop)
  have "fst ` set ?res = dom (map_of ?res)" by (simp add: dom_map_of_conv_image_fst)
  also have "\<dots> = lower ` set words_to_find"
    by (auto simp: dom_def map_of_words_loop split: if_splits)
  finally have keys: "fst ` set ?res = lower ` set words_to_find" .
  have "map_of ?res (lower (strip word)) \<noteq> None"
    if "words_to_find = parse_words words_input" "word \<in> set words_to_find" for words_input word
    using that m [of word] parse_words_trimmed [of word words_input] by simp
  with res keys m show ?thesis by auto
qed

theorem analyze_keys_lowered_witness:
  "parse_words '' Great , cats,'' = [''Great'', ''cats'']
   \<and> fst ` set (the (analyze_words_in_abstract (Some ''Cats are great.'')
                       (parse_words '' Great , cats,''))) = {''great'', ''cats''}
   \<and> map_of (the (analyze_words_in_abstract (Some ''Cats are great.'')
                   (parse_words '' Great , cats,''))) (lower (strip ''Great'')) \<noteq> None
   \<and> map_of (the (analyze_words_in_abstract (Some ''Cats are great.'')
                   (parse_words '' Great , cats,''))) (lower ''cats'') \<noteq> None"
proof -
  let ?ws = "parse_words '' Great , cats,''"
  have pw: "?ws = [''Great'', ''cats'']" by code_simp
  have lw: "lower ` set [''Great'', ''cats''] = {''great'', ''cats''}" by code_simp
  have h: "''Cats are great.'' \<noteq> []" by simp
  from analyze_keys_lowered [OF h, of ?ws] obtain res where
    r: "analyze_words_in_abstract (Some ''Cats are great.'') ?ws = Some res"
       "fst ` set res = lower ` set ?ws"
       "\<forall>word \<in> set ?ws. \<exists>data. map_of res (lower word) = Some data"
       "\<forall>words_input. ?ws = parse_words words_input \<longrightarrow>
              (\<forall>word \<in> set ?ws. map_of res (lower (strip word)) \<noteq> None)"
    by blast
  from r(2) pw lw have "fst ` set res = {''great'', ''cats''}" by simp
  moreover from r(4) pw have "map_of res (lower (strip ''Great'')) \<noteq> None"
    by (metis list.set_intros(1))
  moreover from r(3) pw have "map_of res (lower ''cats'') \<noteq> None" by auto
  ultimately show ?thesis using r(1) pw by simp
qed

text \<open>
  C4. For every non-empty abstract and every term, the count stored for the term is what
  \<open>str.count\<close> returns for the lower-cased term in the lower-cased abstract, and that is the
  number of non-overlapping occurrences: the size of a largest family of occurrences no
  two of which overlap. No word boundary is involved: "abstract" is counted three times in
  "abstractabstractabstract".
\<close>

theorem count_of_entry:
  assumes "abstract \<noteq> []" and "word \<in> set words_to_find"
  shows "\<exists>res data.
           analyze_words_in_abstract (Some abstract) words_to_find = Some res \<and>
           map_of res (lower word) = Some data \<and>
           count data = str_count (lower abstract) (lower word) \<and>
           max_non_overlapping (lower word) (lower abstract) (count data)"
proof -
  from analyze_entry [OF assms] obtain res where
    res: "analyze_words_in_abstract (Some abstract) words_to_find = Some res"
      "map_of res (lower word)
         = Some (entry_for (lower abstract) (re_split abstract) (lower word))"
    by blast
  have "count (entry_for (lower abstract) (re_split abstract) (lower word))
          = str_count (lower abstract) (lower word)"
    by (simp add: entry_for_def)
  with res str_count_max_non_overlapping [of "lower word" "lower abstract"] show ?thesis
    by auto
qed

theorem count_of_entry_witness:
  "analyze_words_in_abstract (Some ''abstractabstractabstract'') [''abstract'']
     = Some [(''abstract'', \<lparr>count = 3, sentences = [''abstractabstractabstract'']\<rparr>)]
   \<and> count (the (map_of (the (analyze_words_in_abstract (Some ''abstractabstractabstract'')
                                [''abstract''])) ''abstract'')) = 3
   \<and> max_non_overlapping ''abstract'' ''abstractabstractabstract'' 3"
proof -
  let ?a = "''abstractabstractabstract''"
  have h1: "?a \<noteq> []" by simp
  have h2: "''abstract'' \<in> set [''abstract'']" by simp
  have lw: "lower ''abstract'' = ''abstract''" by code_simp
  have la: "lower ?a = ?a" by code_simp
  have c3: "str_count ?a ''abstract'' = 3" by code_simp
  have an: "analyze_words_in_abstract (Some ?a) [''abstract'']
     = Some [(''abstract'', \<lparr>count = 3, sentences = [''abstractabstractabstract'']\<rparr>)]"
    by code_simp
  from count_of_entry [OF h1 h2] obtain res data where
    r: "analyze_words_in_abstract (Some ?a) [''abstract''] = Some res"
       "map_of res (lower ''abstract'') = Some data"
       "count data = str_count (lower ?a) (lower ''abstract'')"
       "max_non_overlapping (lower ''abstract'') (lower ?a) (count data)"
    by blast
  from r(3) lw la c3 have c: "count data = 3" by simp
  from r(1,2) lw have "the (map_of (the (analyze_words_in_abstract (Some ?a) [''abstract''])) ''abstract'') = data"
    by simp
  moreover from r(4) lw la c have "max_non_overlapping ''abstract'' ?a 3" by simp
  ultimately show ?thesis using an c by simp
qed

section \<open>Properties of the fetcher\<close>

lemma get_pubmed_abstract_returns:
  "\<exists>r w'. get_pubmed_abstract env pubmed_id w = (Inr r, w')"
  by (simp add: get_pubmed_abstract_def split: prod.split sum.split exn.split)





lemma method4_truthy: "method4 soup = Some t \<Longrightarrow> t \<noteq> []"
  by (auto simp: method4_def looks_like_abstract_def Let_def find_Some_iff
           split: option.splits)

text \<open>
  C6. The four methods run in order and the first one that yields a non-empty string
  decides the result, whatever the later methods would find; when none does, the result is
  empty or absent. In particular a non-empty text of the abstract container is returned
  also when a \<open>citation_abstract\<close> meta tag is present.
\<close>

theorem extraction_order:
  "extract_abstract soup =
     (if truthy (method1 soup) then method1 soup
      else if truthy (method2 soup) then method2 soup
      else if truthy (method3 soup) then method3 soup
      else if truthy (method4 soup) then method4 soup
      else assign (method3 soup) (assign (method2 soup) (method1 soup)))
   \<and> (\<forall>a. method1 soup = Some a \<and> a \<noteq> [] \<longrightarrow> extract_abstract soup = Some a)"
proof -
  have m4: "truthy (method4 soup) \<or> method4 soup = None"
    using method4_truthy [of soup] by (cases "method4 soup") auto
  then show ?thesis
    by (cases "method1 soup"; cases "method2 soup"; cases "method3 soup";
        cases "method4 soup")
       (auto simp: extract_abstract_def assign_def)
qed

theorem extraction_order_witness:
  "method1 page_full = Some ''Cats are great. Dogs are great too!''
   \<and> method3 page_full = Some ''From the citation.''
   \<and> extract_abstract page_full = Some ''Cats are great. Dogs are great too!''"
proof -
  have m1: "method1 page_full = Some ''Cats are great. Dogs are great too!''" by code_simp
  have m3: "method3 page_full = Some ''From the citation.''" by code_simp
  from extraction_order [of page_full] m1
  have "extract_abstract page_full = Some ''Cats are great. Dogs are great too!''" by simp
  with m1 m3 show ?thesis by simp
qed

lemma find_first_index:
  "List.find P xs = Some x \<longleftrightarrow> (\<exists>i<length xs. xs ! i = x \<and> P x \<and> (\<forall>j<i. \<not> P (xs ! j)))"
  by (auto simp: find_Some_iff)

text \<open>
  C2, as the specification states it, fails: on a page whose only paragraph has the class
  name \<open>abstract-text\<close> and a text longer than 100 characters, methods 1 to 3 yield nothing,
  the specification's method 4 returns the paragraph, and the fetcher returns nothing. The
  fetcher tests the class list for the class name \<open>abstract\<close> itself.
\<close>

theorem method4_counterexample:
  "\<not> truthy (method1 page_class_substring) \<and> \<not> truthy (method2 page_class_substring)
   \<and> \<not> truthy (method3 page_class_substring)
   \<and> method4_spec page_class_substring = Some (''First '' @ long_text)
   \<and> extract_abstract page_class_substring = None"
  by code_simp

text \<open>
  C2, amended. When methods 1 to 3 yield no value, the result is the trimmed text of the
  first paragraph, in document order, whose trimmed text is longer than 100 characters and
  which has the class name \<open>abstract\<close> in its class list or an id that contains the
  substring "abstract"; when there is no such paragraph the result is empty or absent.
\<close>

theorem method4_first_matching_paragraph:
  assumes "\<not> truthy (method1 soup)" and "\<not> truthy (method2 soup)" and "\<not> truthy (method3 soup)"
  shows "(\<exists>i<length (find_all soup ''p'').
            (\<exists>p. find_all soup ''p'' ! i = p \<and>
               100 < length (strip (get_text p)) \<and>
               (''abstract'' \<in> set (get_class p) \<or> sublist ''abstract'' (get_attr p ''id'' [])) \<and>
               extract_abstract soup = Some (strip (get_text p))) \<and>
            (\<forall>j<i. \<not> (100 < length (strip (get_text (find_all soup ''p'' ! j))) \<and>
               (''abstract'' \<in> set (get_class (find_all soup ''p'' ! j)) \<or>
                sublist ''abstract'' (get_attr (find_all soup ''p'' ! j) ''id'' [])))))
         \<or> ((\<forall>p \<in> set (find_all soup ''p'').
                \<not> (100 < length (strip (get_text p)) \<and>
                   (''abstract'' \<in> set (get_class p) \<or> sublist ''abstract'' (get_attr p ''id'' []))))
             \<and> \<not> truthy (extract_abstract soup))"
proof -
  let ?ps = "find_all soup ''p''"
  have lk: "looks_like_abstract p \<longleftrightarrow>
      100 < length (strip (get_text p)) \<and>
      (''abstract'' \<in> set (get_class p) \<or> sublist ''abstract'' (get_attr p ''id'' []))" for p
    by (simp add: looks_like_abstract_def Let_def str_in_sublist)
  have ex: "extract_abstract soup = assign (method4 soup) (assign (method3 soup) (assign (method2 soup) (method1 soup)))"
    using assms
    by (cases "method1 soup"; cases "method2 soup"; cases "method3 soup")
       (auto simp: extract_abstract_def assign_def)
  have falsy: "\<not> truthy (assign (method3 soup) (assign (method2 soup) (method1 soup)))"
    using assms
    by (cases "method1 soup"; cases "method2 soup"; cases "method3 soup")
       (auto simp: assign_def)
  show ?thesis
  proof (cases "List.find looks_like_abstract ?ps")
    case None
    then have "\<forall>p \<in> set ?ps. \<not> looks_like_abstract p" by (simp add: find_None_iff)
    moreover from None have "method4 soup = None" by (simp add: method4_def)
    then have "\<not> truthy (extract_abstract soup)" using ex falsy by (simp add: assign_def)
    ultimately show ?thesis unfolding lk by blast
  next
    case (Some p)
    then obtain i where i: "i < length ?ps" "?ps ! i = p" "looks_like_abstract p"
      "\<forall>j<i. \<not> looks_like_abstract (?ps ! j)"
      unfolding find_first_index by blast
    from Some have "method4 soup = Some (strip (get_text p))" by (simp add: method4_def)
    then have "extract_abstract soup = Some (strip (get_text p))" using ex by (simp add: assign_def)
    with i show ?thesis unfolding lk by blast
  qed
qed

theorem method4_first_matching_paragraph_witness:
  "\<not> truthy (method1 page_paragraphs) \<and> \<not> truthy (method2 page_paragraphs)
   \<and> \<not> truthy (method3 page_paragraphs)
   \<and> extract_abstract page_paragraphs = Some (''Second '' @ long_text)
   \<and> ((\<exists>i<length (find_all page_paragraphs ''p'').
            (\<exists>p. find_all page_paragraphs ''p'' ! i = p \<and>
               100 < length (strip (get_text p)) \<and>
               (''abstract'' \<in> set (get_class p) \<or> sublist ''abstract'' (get_attr p ''id'' [])) \<and>
               extract_abstract page_paragraphs = Some (strip (get_text p))) \<and>
            (\<forall>j<i. \<not> (100 < length (strip (get_text (find_all page_paragraphs ''p'' ! j))) \<and>
               (''abstract'' \<in> set (get_class (find_all page_paragraphs ''p'' ! j)) \<or>
                sublist ''abstract'' (get_attr (find_all page_paragraphs ''p'' ! j) ''id'' [])))))
         \<or> ((\<forall>p \<in> set (find_all page_paragraphs ''p'').
                \<not> (100 < length (strip (get_text p)) \<and>
                   (''abstract'' \<in> set (get_class p) \<or> sublist ''abstract'' (get_attr p ''id'' []))))
             \<and> \<not> truthy (extract_abstract page_paragraphs)))"
proof -
  have h1: "\<not> truthy (method1 page_paragraphs)" by code_simp
  have h2: "\<not> truthy (method2 page_paragraphs)" by code_simp
  have h3: "\<not> truthy (method3 page_paragraphs)" by code_simp
  have v: "extract_abstract page_paragraphs = Some (''Second '' @ long_text)" by code_simp
  from method4_first_matching_paragraph [OF h1 h2 h3] h1 h2 h3 v show ?thesis by blast
qed

section \<open>Properties of the handler\<close>

lemma show_sentences_no_subheader: "ev \<in> set (show_sentences i ss) \<Longrightarrow> \<not> is_Subheader ev"
  by (induction i ss rule: show_sentences.induct) auto

lemma show_word_no_subheader: "ev \<in> set (show_word item) \<Longrightarrow> \<not> is_Subheader ev"
  by (cases item) (auto simp: show_word_def split: if_splits dest: show_sentences_no_subheader)

lemma show_analysis_no_subheader: "ev \<in> set (show_analysis res) \<Longrightarrow> \<not> is_Subheader ev"
  by (auto simp: show_analysis_def split: option.splits if_splits dest: show_word_no_subheader)

lemma show_result_no_subheader:
  "filter is_Subheader (show_result pubmed_id ws r) = []"
  by (auto simp: show_result_def filter_empty_conv dest: show_analysis_no_subheader)

lemma show_result_nonempty: "show_result pubmed_id ws r \<noteq> []"
  by (simp add: show_result_def)

lemma st_call_no_widget: "\<not> is_TextArea ev \<Longrightarrow> st_call shown ev = Inr (shown @ [ev])"
  by (simp add: st_call_def)

lemma display_no_widget:
  "\<forall>ev \<in> set evs. \<not> is_TextArea ev \<Longrightarrow> display shown evs = (shown @ evs, None)"
  by (induction evs arbitrary: shown) (auto simp: st_call_no_widget)

lemma display_completed: "display shown evs = (shown', None) \<Longrightarrow> shown' = shown @ evs"
proof (induction evs arbitrary: shown)
  case Nil
  then show ?case by simp
next
  case (Cons ev evs)
  then have "display (shown @ [ev]) evs = (shown', None)"
    by (auto simp: st_call_def split: if_splits)
  then have "shown' = (shown @ [ev]) @ evs" by (rule Cons.IH)
  then show ?case by simp
qed

lemma display_raised: "display shown evs = (shown', Some e) \<Longrightarrow> e = duplicate_element"
proof (induction evs arbitrary: shown)
  case Nil
  then show ?case by simp
next
  case (Cons ev evs)
  show ?case
  proof (cases "is_TextArea ev \<and> ev \<in> set shown")
    case True
    with Cons.prems show ?thesis by (simp add: st_call_def)
  next
    case False
    with Cons.prems have "display (shown @ [ev]) evs = (shown', Some e)"
      by (auto simp: st_call_def)
    then show ?thesis by (rule Cons.IH)
  qed
qed

lemma ids_loop_step:
  "get_pubmed_abstract env pubmed_id w = (Inr r, w1) \<Longrightarrow>
   ids_loop env ws (pubmed_id # rest) shown w =
     (case display (shown @ [Subheader (''PubMed ID: '' @ pubmed_id)])
             (show_result pubmed_id ws r) of
        (shown2, Some e) \<Rightarrow> (shown2, Some e, w1)
      | (shown2, None) \<Rightarrow> ids_loop env ws rest shown2 w1)"
  by (simp add: st_call_def)

text \<open>
  What does hold of the loop in every world: the only exception that can end it is the
  duplicate text area, and a run that ends without one has shown the headers of all the
  identifiers, in order, after what was shown before.
\<close>

lemma ids_loop_raises_only_duplicate:
  "ids_loop env ws ids shown w = (evs, Some e, w') \<Longrightarrow> e = duplicate_element"
proof (induction ids arbitrary: shown w)
  case Nil
  then show ?case by simp
next
  case (Cons pubmed_id rest)
  obtain r w1 where r: "get_pubmed_abstract env pubmed_id w = (Inr r, w1)"
    using get_pubmed_abstract_returns [of env pubmed_id w] by auto
  let ?shown1 = "shown @ [Subheader (''PubMed ID: '' @ pubmed_id)]"
  obtain shown2 raised where d: "display ?shown1 (show_result pubmed_id ws r) = (shown2, raised)"
    by (cases "display ?shown1 (show_result pubmed_id ws r)") auto
  show ?case
  proof (cases raised)
    case None
    with Cons.prems d have "ids_loop env ws rest shown2 w1 = (evs, Some e, w')"
      unfolding ids_loop_step [OF r] by simp
    then show ?thesis by (rule Cons.IH)
  next
    case (Some e')
    with Cons.prems d have "e = e'" unfolding ids_loop_step [OF r] by simp
    moreover from d Some have "e' = duplicate_element" using display_raised by blast
    ultimately show ?thesis by simp
  qed
qed

lemma ids_loop_completed:
  "ids_loop env ws ids shown w = (evs, None, w') \<Longrightarrow>
   filter is_Subheader evs =
     filter is_Subheader shown @ map (\<lambda>pubmed_id. Subheader (''PubMed ID: '' @ pubmed_id)) ids"
proof (induction ids arbitrary: shown w)
  case Nil
  then show ?case by simp
next
  case (Cons pubmed_id rest)
  obtain r w1 where r: "get_pubmed_abstract env pubmed_id w = (Inr r, w1)"
    using get_pubmed_abstract_returns [of env pubmed_id w] by auto
  let ?shown1 = "shown @ [Subheader (''PubMed ID: '' @ pubmed_id)]"
  obtain shown2 raised where d: "display ?shown1 (show_result pubmed_id ws r) = (shown2, raised)"
    by (cases "display ?shown1 (show_result pubmed_id ws r)") auto
  show ?case
  proof (cases raised)
    case None
    with d have s2: "shown2 = ?shown1 @ show_result pubmed_id ws r"
      using display_completed by blast
    from None Cons.prems d have "ids_loop env ws rest shown2 w1 = (evs, None, w')"
      unfolding ids_loop_step [OF r] by simp
    then have "filter is_Subheader evs =
        filter is_Subheader shown2 @ map (\<lambda>pubmed_id. Subheader (''PubMed ID: '' @ pubmed_id)) rest"
      by (rule Cons.IH)
    then show ?thesis by (simp add: s2 show_result_no_subheader)
  next
    case (Some e')
    with Cons.prems d show ?thesis unfolding ids_loop_step [OF r] by simp
  qed
qed

text \<open>
  A failed fetch does not end the run: with a 404, a page with an abstract, an empty page
  and an unreachable host, in this order, every identifier gets its block.
\<close>

lemma failed_fetches_do_not_end_run:
  "analyze_button test_env
     [CHR ''2'', CHR 0x0A, CHR ''1'', CHR 0x0A, CHR ''7'', CHR 0x0A, CHR ''3''] ''great'' 0 =
     ([Subheader ''PubMed ID: 2'',
       Error (''Could not find the abstract for PubMed ID 2.'' @ [CHR 0x0A] @
              ''Error fetching PubMed article: 404 Client Error: Not Found for url: https://pubmed.ncbi.nlm.nih.gov/2/''),
       Subheader ''PubMed ID: 1'',
       TextArea ''Abstract'' ''Cats are great. Dogs are great too!'',
       Markdown (''**Word:** `great`  '' @ [CHR 0x0A] @ ''Count: 2''),
       Markdown ''Sentences containing the word:'',
       Markdown ''1. Cats are great.'',
       Markdown ''2. Dogs are great too!'',
       Subheader ''PubMed ID: 7'',
       Error (''Could not find the abstract for PubMed ID 7.'' @ [CHR 0x0A]),
       Subheader ''PubMed ID: 3'',
       Error (''Could not find the abstract for PubMed ID 3.'' @ [CHR 0x0A] @
              ''Error fetching PubMed article: Connection refused'')],
      None, 8)"
  by code_simp

text \<open>
  C7. One block for each identifier, in the order of the input, whatever happens to a single
  identifier, is what the loop is written to give, and the handler does not give it: when
  two identifiers have the same abstract, the second \<open>st.text_area\<close> has the label and
  value of the first and raises. For the input lines 1, 1, 2 the run ends with that
  exception after the header of the second identifier; the second identifier has no block
  beyond its header and the third has none at all.
\<close>

theorem duplicate_abstract_ends_run:
  "analyze_button test_env [CHR ''1'', CHR 0x0A, CHR ''1'', CHR 0x0A, CHR ''2''] ''great'' 0 =
     ([Subheader ''PubMed ID: 1'',
       TextArea ''Abstract'' ''Cats are great. Dogs are great too!'',
       Markdown (''**Word:** `great`  '' @ [CHR 0x0A] @ ''Count: 2''),
       Markdown ''Sentences containing the word:'',
       Markdown ''1. Cats are great.'',
       Markdown ''2. Dogs are great too!'',
       Subheader ''PubMed ID: 1''],
      Some duplicate_element, 4)"
  by code_simp



end
